theory Spec2Isabelle
  imports Main
begin

section \<open>The document tree\<close>

text \<open>
  The script of \<^verbatim>\<open>docs/js/author-avatar.js\<close> and its origin-qualified copy work on the
  DOM of a rendered page. A node is an element (local name, attributes in order, children
  in order) or a text node. The local name is the lower-case one of an HTML document, which
  is what a type selector such as \<^verbatim>\<open>h1\<close> is compared with.

  A document is its root element. An element reference, as \<^verbatim>\<open>querySelector\<close> returns
  it, is the path of child indices from the root: \<open>[]\<close> is the root element, whose
  parent is the Document node itself.
\<close>

type_synonym attrs = "(string \<times> string) list"

datatype node = Element string attrs "node list" | Text string

type_synonym path = "nat list"

datatype error = TypeError | SyntaxError | HierarchyRequestError | NotFoundError

text \<open>
  The ambient objects the handler reads: \<^verbatim>\<open>window.location.origin\<close>; whether the two
  DOM methods it calls for construction and insertion exist (calling a method that is
  absent raises a TypeError); and whether the document is an XML document (a page served
  as XHTML), where markup assigned to \<^verbatim>\<open>innerHTML\<close> is parsed as XML.
\<close>

record host =
  location_origin :: string
  has_createElement :: bool
  has_insertAdjacentElement :: bool
  xml_document :: bool

text \<open>A browser that has both methods, showing an HTML page of the given origin.\<close>

definition browser :: "string \<Rightarrow> host" where
  "browser origin = \<lparr>location_origin = origin,
     has_createElement = True, has_insertAdjacentElement = True, xml_document = False\<rparr>"

text \<open>One that has no \<^verbatim>\<open>insertAdjacentElement\<close> for elements.\<close>

definition legacy_browser :: host where
  "legacy_browser = \<lparr>location_origin = ''https://example.org'',
     has_createElement = True, has_insertAdjacentElement = False, xml_document = False\<rparr>"

text \<open>One that has both methods and shows the page as an XML document.\<close>

definition xhtml_browser :: host where
  "xhtml_browser = \<lparr>location_origin = ''https://example.org'',
     has_createElement = True, has_insertAdjacentElement = True, xml_document = True\<rparr>"

text \<open>One that has no \<^verbatim>\<open>createElement\<close>.\<close>

definition bare_host :: host where
  "bare_host = \<lparr>location_origin = ''https://example.org'',
     has_createElement = False, has_insertAdjacentElement = True, xml_document = False\<rparr>"

fun node_at :: "node \<Rightarrow> path \<Rightarrow> node option" where
  "node_at n [] = Some n"
| "node_at (Text s) (i # p) = None"
| "node_at (Element t a cs) (i # p) = (if i < length cs then node_at (cs ! i) p else None)"

fun tag_of :: "node \<Rightarrow> string option" where
  "tag_of (Element t a cs) = Some t"
| "tag_of (Text s) = None"

fun attribute :: "node \<Rightarrow> string \<Rightarrow> string option" where
  "attribute (Element t a cs) k = map_of a k"
| "attribute (Text s) k = None"

section \<open>Locating the heading\<close>

text \<open>
  \<^verbatim>\<open>document.querySelector("article h1, article h2")\<close>: the first element, in tree
  order (an element before its descendants, these before its following siblings), that
  matches one of the two selectors of the list, that is: an \<^verbatim>\<open>h1\<close> or \<^verbatim>\<open>h2\<close> element
  with an \<^verbatim>\<open>article\<close> element among its proper ancestors. The flag says whether an
  \<^verbatim>\<open>article\<close> ancestor has been passed on the way down.
\<close>

definition is_heading :: "string \<Rightarrow> bool" where
  "is_heading t \<longleftrightarrow> t = ''h1'' \<or> t = ''h2''"

fun first_match :: "bool \<Rightarrow> node \<Rightarrow> path option"
  and first_match_among :: "bool \<Rightarrow> nat \<Rightarrow> node list \<Rightarrow> path option" where
  "first_match in_article (Text s) = None"
| "first_match in_article (Element t a cs) =
     (if in_article \<and> is_heading t then Some []
      else first_match_among (in_article \<or> t = ''article'') 0 cs)"
| "first_match_among in_article i [] = None"
| "first_match_among in_article i (c # cs) =
     (case first_match in_article c of
        Some p \<Rightarrow> Some (i # p)
      | None \<Rightarrow> first_match_among in_article (Suc i) cs)"

definition querySelector :: "node \<Rightarrow> path option" where
  "querySelector document = first_match False document"

text \<open>
  All elements that match the selector list, in tree order (what \<^verbatim>\<open>querySelectorAll\<close>
  would list). The handler does not call it; it says which headings qualify.
\<close>

fun all_matches :: "bool \<Rightarrow> node \<Rightarrow> path list"
  and all_matches_among :: "bool \<Rightarrow> nat \<Rightarrow> node list \<Rightarrow> path list" where
  "all_matches in_article (Text s) = []"
| "all_matches in_article (Element t a cs) =
     (if in_article \<and> is_heading t then [[]] else [])
     @ all_matches_among (in_article \<or> t = ''article'') 0 cs"
| "all_matches_among in_article i [] = []"
| "all_matches_among in_article i (c # cs) =
     map ((#) i) (all_matches in_article c) @ all_matches_among in_article (Suc i) cs"

definition qualifying_headings :: "node \<Rightarrow> path list" where
  "qualifying_headings document = all_matches False document"

text \<open>
  The same notion read off a single path: the node there is an \<^verbatim>\<open>h1\<close> or \<^verbatim>\<open>h2\<close>
  element and some proper prefix of the path leads to an \<^verbatim>\<open>article\<close> element.
\<close>

definition has_article_ancestor :: "node \<Rightarrow> path \<Rightarrow> bool" where
  "has_article_ancestor document p \<longleftrightarrow>
     (\<exists>k < length p. \<exists>a cs. node_at document (take k p) = Some (Element ''article'' a cs))"

definition qualifies :: "node \<Rightarrow> path \<Rightarrow> bool" where
  "qualifies document p \<longleftrightarrow>
     (\<exists>t a cs. node_at document p = Some (Element t a cs) \<and> is_heading t)
     \<and> has_article_ancestor document p"

text \<open>Tree order on paths: an ancestor comes before its descendants.\<close>

fun doc_before :: "path \<Rightarrow> path \<Rightarrow> bool" where
  "doc_before [] [] = False"
| "doc_before [] (j # q) = True"
| "doc_before (i # p) [] = False"
| "doc_before (i # p) (j # q) = (i < j \<or> (i = j \<and> doc_before p q))"

section \<open>Building and inserting the byline\<close>

definition createElement :: "host \<Rightarrow> string \<Rightarrow> error + node" where
  "createElement H tag =
     (if has_createElement H then Inr (Element tag [] []) else Inl TypeError)"

fun set_attribute :: "string \<Rightarrow> string \<Rightarrow> attrs \<Rightarrow> attrs" where
  "set_attribute k v [] = [(k, v)]"
| "set_attribute k v ((k', v') # a) =
     (if k' = k then (k, v) # a else (k', v') # set_attribute k v a)"

text \<open>
  Assigning a string to \<^verbatim>\<open>element.style\<close> sets the inline style declaration. The
  model keeps the assigned text as the value of the \<^verbatim>\<open>style\<close> attribute (a browser
  re-serialises the declarations; no property here reads the value).
\<close>

fun set_style :: "string \<Rightarrow> node \<Rightarrow> node" where
  "set_style v (Element t a cs) = Element t (set_attribute ''style'' v a) cs"
| "set_style v (Text s) = Text s"

text \<open>
  Assigning to \<^verbatim>\<open>innerHTML\<close> replaces the children by the parsed markup. The markup of
  the two scripts is fixed (up to the image address), so the model takes its parse. In
  both scripts the \<^verbatim>\<open>img\<close> tag is not closed: that is an HTML fragment, but not
  well-formed XML, so on an XML document the assignment raises a SyntaxError.
\<close>

fun replace_children :: "node list \<Rightarrow> node \<Rightarrow> node" where
  "replace_children parsed (Element t a cs) = Element t a parsed"
| "replace_children parsed (Text s) = Text s"

definition set_innerHTML :: "host \<Rightarrow> node list \<Rightarrow> node \<Rightarrow> error + node" where
  "set_innerHTML H parsed n =
     (if xml_document H then Inl SyntaxError else Inr (replace_children parsed n))"

text \<open>
  \<^verbatim>\<open>target.insertAdjacentElement("afterend", new)\<close>: \<open>new\<close> becomes the next sibling of
  the target, in the target's parent. The root element's parent is the Document, which
  takes no second element child: HierarchyRequestError. A path that leads nowhere is no
  element reference; it cannot come out of \<open>querySelector\<close> (lemma \<open>querySelector_valid\<close>).
\<close>

fun insert_afterend :: "path \<Rightarrow> node \<Rightarrow> node \<Rightarrow> error + node" where
  "insert_afterend [] new n = Inl HierarchyRequestError"
| "insert_afterend (i # p) new (Text s) = Inl NotFoundError"
| "insert_afterend [i] new (Element t a cs) =
     (if i < length cs then Inr (Element t a (take (Suc i) cs @ new # drop (Suc i) cs))
      else Inl NotFoundError)"
| "insert_afterend (i # p) new (Element t a cs) =
     (if i < length cs then
        (case insert_afterend p new (cs ! i) of
           Inl e \<Rightarrow> Inl e
         | Inr c \<Rightarrow> Inr (Element t a (cs[i := c])))
      else Inl NotFoundError)"

definition insertAdjacentElement :: "host \<Rightarrow> path \<Rightarrow> node \<Rightarrow> node \<Rightarrow> error + node" where
  "insertAdjacentElement H target new document =
     (if has_insertAdjacentElement H then insert_afterend target new document
      else Inl TypeError)"

definition next_sibling :: "path \<Rightarrow> path" where
  "next_sibling p = butlast p @ [Suc (last p)]"

subsection \<open>The script of docs/js/author-avatar.js (relative image path)\<close>

definition avatar_style :: string where
  "avatar_style = ''display:flex;align-items:center;gap:10px;margin:6px 0 20px 0;''"

definition avatar_markup :: "node list" where
  "avatar_markup =
     [Text (CHR 0x0A # ''      ''),
      Element ''img'' [(''src'', ''images/labeeb.jpg''), (''width'', ''32''),
        (''height'', ''32''), (''style'', ''border-radius:50%;'')] [],
      Text (CHR 0x0A # ''      ''),
      Element ''span'' [(''style'', ''font-size:14px;opacity:0.8;'')] [Text ''By labeeb''],
      Text (CHR 0x0A # ''    '')]"

definition handler :: "host \<Rightarrow> node \<Rightarrow> error + node" where
  "handler H document =
     (case querySelector document of
        None \<Rightarrow> Inr document
      | Some firstHeading \<Rightarrow>
          (case createElement H ''div'' of
             Inl e \<Rightarrow> Inl e
           | Inr avatarDiv \<Rightarrow>
               (case set_innerHTML H avatar_markup (set_style avatar_style avatarDiv) of
                  Inl e \<Rightarrow> Inl e
                | Inr avatarDiv \<Rightarrow>
                    insertAdjacentElement H firstHeading avatarDiv document)))"

subsection \<open>The origin-qualified copy\<close>

text \<open>
  The serialisation of an origin (scheme, host, port, or \<^verbatim>\<open>null\<close>) has no quotation mark
  and no ampersand, so the \<^verbatim>\<open>src\<close> attribute read back from the markup is the
  interpolated string.
\<close>

definition image_url :: "string \<Rightarrow> string" where
  "image_url origin = origin @ ''/backend-engineering-notes/images/labeeb.jpg''"

definition avatar_markup_origin :: "string \<Rightarrow> node list" where
  "avatar_markup_origin url =
     [Text (CHR 0x0A # ''      ''),
      Element ''img'' [(''src'', url), (''width'', ''32''),
        (''height'', ''32''), (''style'', ''border-radius:50%;'')] [],
      Text (CHR 0x0A # ''      ''),
      Element ''span'' [(''style'', ''font-size:14px;opacity:0.8;'')] [Text ''By Labeeb''],
      Text (CHR 0x0A # ''    '')]"

definition handler_origin :: "host \<Rightarrow> node \<Rightarrow> error + node" where
  "handler_origin H document =
     (case querySelector document of
        None \<Rightarrow> Inr document
      | Some firstHeading \<Rightarrow>
          (case createElement H ''div'' of
             Inl e \<Rightarrow> Inl e
           | Inr avatarDiv \<Rightarrow>
               (case set_innerHTML H (avatar_markup_origin (image_url (location_origin H)))
                       (set_style avatar_style avatarDiv) of
                  Inl e \<Rightarrow> Inl e
                | Inr avatarDiv \<Rightarrow>
                    insertAdjacentElement H firstHeading avatarDiv document)))"

subsection \<open>The element each script builds and inserts on an HTML document\<close>

definition avatarDiv :: node where
  "avatarDiv = replace_children avatar_markup (set_style avatar_style (Element ''div'' [] []))"

definition avatarDiv_origin :: "string \<Rightarrow> node" where
  "avatarDiv_origin origin =
     replace_children (avatar_markup_origin (image_url origin))
       (set_style avatar_style (Element ''div'' [] []))"

section \<open>Notions the properties are stated with\<close>

text \<open>The handler fired a second time on what its first run left.\<close>

definition twice :: "(node \<Rightarrow> error + node) \<Rightarrow> node \<Rightarrow> error + node" where
  "twice run document = (case run document of Inl e \<Rightarrow> Inl e | Inr d \<Rightarrow> run d)"

definition tag_at :: "node \<Rightarrow> path \<Rightarrow> string option" where
  "tag_at document p = Option.bind (node_at document p) tag_of"

definition attribute_at :: "node \<Rightarrow> path \<Rightarrow> string \<Rightarrow> string option" where
  "attribute_at document p k = (case node_at document p of None \<Rightarrow> None | Some n \<Rightarrow> attribute n k)"

definition heading_free :: "node \<Rightarrow> bool" where
  "heading_free b \<longleftrightarrow> all_matches True b = [] \<and> all_matches False b = []"

subsection \<open>The one configurable behaviour the specification describes\<close>

text \<open>
  Following the specification's words: one container holding an image (the resolved image
  path as its source) and a label \<open>By <author name>\<close>, inserted as the next sibling of
  the located heading; nothing is done when no heading is found. The image path and the
  label text are the configuration. An error of the host's DOM calls is passed on.
\<close>

definition byline :: "string \<Rightarrow> string \<Rightarrow> node" where
  "byline image_path label =
     Element ''div'' [(''style'', avatar_style)]
       [Text (CHR 0x0A # ''      ''),
        Element ''img'' [(''src'', image_path), (''width'', ''32''),
          (''height'', ''32''), (''style'', ''border-radius:50%;'')] [],
        Text (CHR 0x0A # ''      ''),
        Element ''span'' [(''style'', ''font-size:14px;opacity:0.8;'')] [Text label],
        Text (CHR 0x0A # ''    '')]"

definition inject :: "host \<Rightarrow> node \<Rightarrow> node \<Rightarrow> error + node" where
  "inject H new document =
     (case querySelector document of
        None \<Rightarrow> Inr document
      | Some heading \<Rightarrow>
          if \<not> has_createElement H then Inl TypeError
          else if xml_document H then Inl SyntaxError
          else insertAdjacentElement H heading new document)"

text \<open>
  The two constants of the origin-qualified mode as the specification names them: the
  site base path and the image sub-path (the relative script's image path). The script
  itself holds their concatenation as one literal.
\<close>

definition site_base_path :: string where
  "site_base_path = ''/backend-engineering-notes/''"

definition image_sub_path :: string where
  "image_sub_path = ''images/labeeb.jpg''"

text \<open>The slashes that meet where string \<open>x\<close> ends and string \<open>y\<close> begins.\<close>

definition is_slash :: "char \<Rightarrow> bool" where
  "is_slash c \<longleftrightarrow> c = CHR ''/''"

definition junction_slashes :: "string \<Rightarrow> string \<Rightarrow> nat" where
  "junction_slashes x y =
     length (takeWhile is_slash (rev x)) + length (takeWhile is_slash y)"

subsection \<open>Example pages\<close>

definition scenario_page :: node where
  "scenario_page =
     Element ''article'' [] [Element ''h1'' [] [Text ''Title''], Element ''p'' [] [Text ''Body'']]"

definition plain_page :: node where
  "plain_page = Element ''article'' [] [Element ''p'' [] [Text ''No heading here'']]"

definition mixed_page :: node where
  "mixed_page =
     Element ''article'' []
       [Element ''h2'' [] [Text ''Section''], Element ''h1'' [] [Text ''Title'']]"

definition two_headings_page :: node where
  "two_headings_page =
     Element ''html'' []
       [Element ''body'' []
          [Element ''article'' []
             [Element ''h1'' [] [Text ''Title''], Element ''p'' [] [Text ''Body''],
              Element ''h2'' [] [Text ''More''], Element ''p'' [] [Text ''Tail'']]]]"

fun hd_option :: "'a list \<Rightarrow> 'a option" where
  "hd_option [] = None"
| "hd_option (x # xs) = Some x"

text \<open>How many nodes of a tree are equal to \<open>b\<close> (as trees).\<close>

fun occurrences :: "node \<Rightarrow> node \<Rightarrow> nat"
  and occurrences_among :: "node \<Rightarrow> node list \<Rightarrow> nat" where
  "occurrences b (Text s) = (if Text s = b then 1 else 0)"
| "occurrences b (Element t a cs) =
     (if Element t a cs = b then 1 else 0) + occurrences_among b cs"
| "occurrences_among b [] = 0"
| "occurrences_among b (c # cs) = occurrences b c + occurrences_among b cs"

text \<open>
  Where the element at path \<open>h\<close> is found after a node has been inserted as the next
  sibling of the element at path \<open>p\<close>: the following siblings of \<open>p\<close>, and what is
  below them, move one place to the right.
\<close>

fun shift :: "path \<Rightarrow> path \<Rightarrow> path" where
  "shift [] h = h"
| "shift (i # p) [] = []"
| "shift [i] (j # q) = (if i < j then Suc j # q else j # q)"
| "shift (i # p) (j # q) = (if i = j then j # shift p q else j # q)"

text \<open>The tree without the child subtree at a path (the root cannot be taken away).\<close>

fun remove_at :: "path \<Rightarrow> node \<Rightarrow> node" where
  "remove_at [] n = n"
| "remove_at (i # p) (Text s) = Text s"
| "remove_at [i] (Element t a cs) = Element t a (take i cs @ drop (Suc i) cs)"
| "remove_at (i # p) (Element t a cs) =
     (if i < length cs then Element t a (cs[i := remove_at p (cs ! i)])
      else Element t a cs)"

text \<open>
  The nodes of a tree in tree order, each without its children: what is there and in
  which order, whatever the nesting.
\<close>

fun shallow :: "node \<Rightarrow> node" where
  "shallow (Element t a cs) = Element t a []"
| "shallow (Text s) = Text s"

fun flatten :: "node \<Rightarrow> node list"
  and flatten_among :: "node list \<Rightarrow> node list" where
  "flatten (Text s) = [Text s]"
| "flatten (Element t a cs) = Element t a [] # flatten_among cs"
| "flatten_among [] = []"
| "flatten_among (c # cs) = flatten c @ flatten_among cs"

section \<open>Facts about the search\<close>

lemma first_match_is_hd:
  "first_match a n = hd_option (all_matches a n)"
  "first_match_among a i cs = hd_option (all_matches_among a i cs)"
proof (induction a n and a i cs rule: first_match_first_match_among.induct)
  case (4 in_article i c cs)
  then show ?case by (cases "all_matches in_article c") (auto)
qed auto

lemma all_matches_among_append:
  "all_matches_among a i (xs @ ys) =
     all_matches_among a i xs @ all_matches_among a (i + length xs) ys"
  by (induction xs arbitrary: i) auto

lemma all_matches_among_index:
  "r \<in> set (all_matches_among a i cs) \<Longrightarrow> \<exists>j q. r = j # q \<and> i \<le> j \<and> j < i + length cs"
proof (induction cs arbitrary: i)
  case (Cons c cs)
  then show ?case by fastforce
qed simp

lemma all_matches_among_mem:
  "r \<in> set (all_matches_among a i cs) \<longleftrightarrow>
     (\<exists>j q. r = (i + j) # q \<and> j < length cs \<and> q \<in> set (all_matches a (cs ! j)))"
proof (induction cs arbitrary: i)
  case Nil
  then show ?case by simp
next
  case (Cons c cs)
  show ?case
  proof
    assume "r \<in> set (all_matches_among a i (c # cs))"
    then consider "r \<in> (#) i ` set (all_matches a c)" | "r \<in> set (all_matches_among a (Suc i) cs)"
      by auto
    then show "\<exists>j q. r = (i + j) # q \<and> j < length (c # cs) \<and> q \<in> set (all_matches a ((c # cs) ! j))"
    proof cases
      case 1
      then obtain q where "r = i # q" "q \<in> set (all_matches a c)" by auto
      then show ?thesis by (intro exI [of _ 0] exI [of _ q]) simp
    next
      case 2
      then obtain j q where "r = (Suc i + j) # q" "j < length cs" "q \<in> set (all_matches a (cs ! j))"
        using Cons.IH by blast
      then show ?thesis by (intro exI [of _ "Suc j"] exI [of _ q]) simp
    qed
  next
    assume "\<exists>j q. r = (i + j) # q \<and> j < length (c # cs) \<and> q \<in> set (all_matches a ((c # cs) ! j))"
    then obtain j q where *: "r = (i + j) # q" "j < length (c # cs)" "q \<in> set (all_matches a ((c # cs) ! j))"
      by blast
    show "r \<in> set (all_matches_among a i (c # cs))"
    proof (cases j)
      case 0
      then show ?thesis using * by simp
    next
      case (Suc k)
      then have "r \<in> set (all_matches_among a (Suc i) cs)"
        using * Cons.IH [of "Suc i"] by auto
      then show ?thesis by simp
    qed
  qed
qed


lemma node_at_heading_matches:
  "node_at n p = Some (Element t at cs) \<Longrightarrow> is_heading t \<Longrightarrow> all_matches True n \<noteq> []"
proof (induction n p rule: node_at.induct)
  case (1 n)
  then show ?case by simp
next
  case (2 s i p)
  then show ?case by simp
next
  case (3 t' a' cs' i p)
  then have i: "i < length cs'" and "node_at (cs' ! i) p = Some (Element t at cs)"
    by (auto split: if_splits)
  then have "all_matches True (cs' ! i) \<noteq> []" using 3 by simp
  then obtain q where "q \<in> set (all_matches True (cs' ! i))"
    by (cases "all_matches True (cs' ! i)") auto
  then have "(0 + i) # q \<in> set (all_matches_among True 0 cs')"
    using i all_matches_among_mem by blast
  then show ?case by auto
qed

lemma all_matches_valid:
  "p \<in> set (all_matches a n) \<Longrightarrow> \<exists>t at cs. node_at n p = Some (Element t at cs) \<and> is_heading t"
proof (induction n arbitrary: a p)
  case (Element t at cs)
  show ?case
  proof (cases p)
    case Nil
    then show ?thesis using Element.prems
      by (auto split: if_splits dest: all_matches_among_index)
  next
    case (Cons i q)
    then have "i # q \<in> set (all_matches_among (a \<or> t = ''article'') 0 cs)"
      using Element.prems by (auto split: if_splits)
    then have "i < length cs" "q \<in> set (all_matches (a \<or> t = ''article'') (cs ! i))"
      by (auto simp: all_matches_among_mem)
    then show ?thesis using Element.IH [of "cs ! i"] Cons by auto
  qed
next
  case (Text s)
  then show ?case by simp
qed

lemma all_matches_False_nonroot: "p \<in> set (all_matches False n) \<Longrightarrow> p \<noteq> []"
  by (cases n) (auto dest: all_matches_among_index)

lemma insert_afterend_succeeds:
  "node_at n p = Some x \<Longrightarrow> p \<noteq> [] \<Longrightarrow> \<exists>n'. insert_afterend p b n = Inr n'"
proof (induction p b n rule: insert_afterend.induct)
  case (4 i v va new t a cs)
  then show ?case by (auto split: if_splits sum.splits)
qed (auto split: if_splits)

lemma next_sibling_simps [simp]:
  "next_sibling [i] = [Suc i]"
  "next_sibling (i # j # q) = i # next_sibling (j # q)"
  by (simp_all add: next_sibling_def)

lemma insert_afterend_node_at:
  "insert_afterend p b n = Inr n' \<Longrightarrow>
     node_at n' (next_sibling p) = Some b \<and> node_at n' p = node_at n p"
proof (induction p b n arbitrary: n' rule: insert_afterend.induct)
  case (3 i new t a cs)
  then show ?case by (auto split: if_splits simp: nth_append)
next
  case (4 i v va new t a cs)
  then show ?case by (auto split: if_splits sum.splits)
qed auto

lemma next_sibling_nonempty [simp]: "next_sibling p \<noteq> []"
  by (simp add: next_sibling_def)

lemma remove_at_deep:
  "q \<noteq> [] \<Longrightarrow> remove_at (i # q) (Element t a cs) =
     (if i < length cs then Element t a (cs[i := remove_at q (cs ! i)]) else Element t a cs)"
  by (cases q) simp_all

lemma remove_at_insert_afterend:
  "insert_afterend p b n = Inr n' \<Longrightarrow> remove_at (next_sibling p) n' = n"
proof (induction p b n arbitrary: n' rule: insert_afterend.induct)
  case (3 i new t a cs)
  then show ?case by (auto split: if_splits simp: min_def)
next
  case (4 i v va new t a cs)
  then show ?case by (auto split: if_splits sum.splits simp: remove_at_deep)
qed auto


lemma shift_low:
  "k + length xs \<le> Suc i \<Longrightarrow>
     map (shift [i]) (all_matches_among a k xs) = all_matches_among a k xs"
proof (rule map_idI)
  fix r assume "k + length xs \<le> Suc i" "r \<in> set (all_matches_among a k xs)"
  then obtain j q where "r = j # q" "j < k + length xs"
    using all_matches_among_index by blast
  then show "shift [i] r = r" using \<open>k + length xs \<le> Suc i\<close> by simp
qed

lemma shift_high:
  "i < k \<Longrightarrow> map (shift [i]) (all_matches_among a k xs) = all_matches_among a (Suc k) xs"
  by (induction xs arbitrary: k) auto

lemma shift_other:
  assumes "p \<noteq> []" "\<And>r. r \<in> set L \<Longrightarrow> \<exists>j q. r = j # q \<and> j \<noteq> i"
  shows "map (shift (i # p)) L = L"
proof (rule map_idI)
  fix r assume "r \<in> set L"
  then obtain j q where "r = j # q" "j \<noteq> i" using assms(2) by blast
  then show "shift (i # p) r = r" using assms(1) by (cases p) auto
qed

lemma shift_same:
  "p \<noteq> [] \<Longrightarrow> map (shift (i # p)) (map ((#) i) ms) = map ((#) i) (map (shift p) ms)"
  by (cases p) auto

lemma shift_root [simp]: "shift p [] = []"
  by (cases p) auto

lemma all_matches_insert_afterend:
  "insert_afterend p b n = Inr n' \<Longrightarrow> (\<And>a. all_matches a b = []) \<Longrightarrow>
     all_matches a n' = map (shift p) (all_matches a n)"
proof (induction p b n arbitrary: n' a rule: insert_afterend.induct)
  case (1 new n)
  then show ?case by simp
next
  case (2 i p new s)
  then show ?case by simp
next
  case (3 i new t at cs)
  then have i: "i < length cs"
    and n': "n' = Element t at (take (Suc i) cs @ new # drop (Suc i) cs)"
    by (auto split: if_splits)
  let ?a = "a \<or> t = ''article''"
  have len: "length (take (Suc i) cs) = Suc i" using i by simp
  have "all_matches_among ?a 0 (take (Suc i) cs @ new # drop (Suc i) cs)
      = all_matches_among ?a 0 (take (Suc i) cs)
        @ all_matches_among ?a (Suc (Suc i)) (drop (Suc i) cs)"
    using 3(2) i by (simp add: all_matches_among_append min_def del: take_Suc drop_Suc)
  moreover have "map (shift [i]) (all_matches_among ?a 0 (take (Suc i) cs @ drop (Suc i) cs))
      = all_matches_among ?a 0 (take (Suc i) cs)
        @ all_matches_among ?a (Suc (Suc i)) (drop (Suc i) cs)"
    unfolding all_matches_among_append map_append
    using shift_low [of 0 "take (Suc i) cs" i ?a] shift_high [of i "Suc i" ?a "drop (Suc i) cs"] len
    by simp
  ultimately show ?case using n' by simp
next
  case (4 i v va new t at cs)
  then obtain c where i: "i < length cs"
    and c: "insert_afterend (v # va) new (cs ! i) = Inr c"
    and n': "n' = Element t at (cs[i := c])"
    by (auto split: if_splits sum.splits)
  let ?a = "a \<or> t = ''article''"
  have IH: "all_matches ?a c = map (shift (v # va)) (all_matches ?a (cs ! i))"
    using 4(1) [OF i c] 4(3) by simp
  have upd: "cs[i := c] = take i cs @ c # drop (Suc i) cs"
    using i by (simp add: upd_conv_take_nth_drop)
  have old: "cs = take i cs @ (cs ! i) # drop (Suc i) cs"
    using i by (simp add: id_take_nth_drop [symmetric])
  have len: "length (take i cs) = i" using i by simp
  have lo: "map (shift (i # v # va)) (all_matches_among ?a 0 (take i cs))
      = all_matches_among ?a 0 (take i cs)"
    by (rule shift_other) (use len in \<open>auto dest!: all_matches_among_index\<close>)
  have hi: "map (shift (i # v # va)) (all_matches_among ?a (Suc i) (drop (Suc i) cs))
      = all_matches_among ?a (Suc i) (drop (Suc i) cs)"
    by (rule shift_other) (auto dest!: all_matches_among_index)
  have "all_matches_among ?a 0 (cs[i := c])
      = all_matches_among ?a 0 (take i cs) @ map ((#) i) (all_matches ?a c)
        @ all_matches_among ?a (Suc i) (drop (Suc i) cs)"
    unfolding upd using i by (simp add: all_matches_among_append min_def)
  moreover have "all_matches_among ?a 0 cs
      = all_matches_among ?a 0 (take i cs @ (cs ! i) # drop (Suc i) cs)"
    by (rule arg_cong [OF old])
  then have "all_matches_among ?a 0 cs
      = all_matches_among ?a 0 (take i cs) @ map ((#) i) (all_matches ?a (cs ! i))
        @ all_matches_among ?a (Suc i) (drop (Suc i) cs)"
    using i by (simp add: all_matches_among_append min_def)
  then have "map (shift (i # v # va)) (all_matches_among ?a 0 cs)
      = all_matches_among ?a 0 (take i cs) @ map ((#) i) (map (shift (v # va)) (all_matches ?a (cs ! i)))
        @ all_matches_among ?a (Suc i) (drop (Suc i) cs)"
    using lo hi shift_same [of "v # va" i "all_matches ?a (cs ! i)"] by simp
  ultimately show ?case using n' IH by simp
qed

lemma occurrences_among_append:
  "occurrences_among b (xs @ ys) = occurrences_among b xs + occurrences_among b ys"
  by (induction xs) auto

lemma occurrences_insert_afterend:
  "insert_afterend p b n = Inr n' \<Longrightarrow> node_at n p = Some (Element t at cs) \<Longrightarrow>
   is_heading t \<Longrightarrow> all_matches True b = [] \<Longrightarrow>
     occurrences b n' = occurrences b n + occurrences b b"
proof (induction p b n arbitrary: n' rule: insert_afterend.induct)
  case (1 new n)
  then show ?case by simp
next
  case (2 i p new s)
  then show ?case by simp
next
  case (3 i new t0 a0 cs0)
  then have i: "i < length cs0"
    and n': "n' = Element t0 a0 (take (Suc i) cs0 @ new # drop (Suc i) cs0)"
    by (auto split: if_splits)
  have "node_at n' [i] = Some (Element t at cs)"
    using insert_afterend_node_at [OF 3(1)] 3(2) by simp
  then have "all_matches True n' \<noteq> []" "all_matches True (Element t0 a0 cs0) \<noteq> []"
    using node_at_heading_matches 3(2,3) by blast+
  then have ne: "n' \<noteq> new" "Element t0 a0 cs0 \<noteq> new" using 3(4) by auto
  have "occurrences_among new cs0
      = occurrences_among new (take (Suc i) cs0) + occurrences_among new (drop (Suc i) cs0)"
    using occurrences_among_append [of new "take (Suc i) cs0" "drop (Suc i) cs0"] by simp
  then show ?case using ne unfolding n'
    by (simp add: occurrences_among_append del: take_Suc drop_Suc)
next
  case (4 i v va new t0 a0 cs0)
  then obtain c where i: "i < length cs0"
    and c: "insert_afterend (v # va) new (cs0 ! i) = Inr c"
    and n': "n' = Element t0 a0 (cs0[i := c])"
    by (auto split: if_splits sum.splits)
  have "node_at n' (i # v # va) = Some (Element t at cs)"
    using insert_afterend_node_at [OF 4(2)] 4(3) by simp
  then have "all_matches True n' \<noteq> []" "all_matches True (Element t0 a0 cs0) \<noteq> []"
    using node_at_heading_matches 4(3,4) by blast+
  then have ne: "n' \<noteq> new" "Element t0 a0 cs0 \<noteq> new" using 4(5) by auto
  have IH: "occurrences new c = occurrences new (cs0 ! i) + occurrences new new"
    using 4(1) [OF i c] 4(3,4,5) i by simp
  have upd: "cs0[i := c] = take i cs0 @ c # drop (Suc i) cs0"
    using i by (simp add: upd_conv_take_nth_drop)
  have old: "cs0 = take i cs0 @ (cs0 ! i) # drop (Suc i) cs0"
    using i by (simp add: id_take_nth_drop [symmetric])
  have "occurrences_among new cs0
      = occurrences_among new (take i cs0 @ (cs0 ! i) # drop (Suc i) cs0)"
    by (rule arg_cong [OF old])
  then have "occurrences_among new (cs0[i := c]) = occurrences_among new cs0 + occurrences new new"
    unfolding upd using IH by (simp add: occurrences_among_append)
  then show ?case using ne unfolding n' by simp
qed

lemma flatten_among_append:
  "flatten_among (xs @ ys) = flatten_among xs @ flatten_among ys"
  by (induction xs) auto

lemma flatten_insert_afterend:
  "insert_afterend p b n = Inr n' \<Longrightarrow>
     \<exists>xs ys. flatten n = xs @ ys \<and> flatten n' = xs @ flatten b @ ys"
proof (induction p b n arbitrary: n' rule: insert_afterend.induct)
  case (1 new n)
  then show ?case by simp
next
  case (2 i p new s)
  then show ?case by simp
next
  case (3 i new t0 a0 cs0)
  then have i: "i < length cs0"
    and n': "n' = Element t0 a0 (take (Suc i) cs0 @ new # drop (Suc i) cs0)"
    by (auto split: if_splits)
  let ?xs = "Element t0 a0 [] # flatten_among (take (Suc i) cs0)"
  let ?ys = "flatten_among (drop (Suc i) cs0)"
  have "flatten_among cs0 = flatten_among (take (Suc i) cs0) @ ?ys"
    using flatten_among_append [of "take (Suc i) cs0" "drop (Suc i) cs0"] by simp
  then have "flatten (Element t0 a0 cs0) = ?xs @ ?ys" by simp
  moreover have "flatten n' = ?xs @ flatten new @ ?ys"
    unfolding n' by (simp add: flatten_among_append del: take_Suc drop_Suc)
  ultimately show ?case by blast
next
  case (4 i v va new t0 a0 cs0)
  then obtain c where i: "i < length cs0"
    and c: "insert_afterend (v # va) new (cs0 ! i) = Inr c"
    and n': "n' = Element t0 a0 (cs0[i := c])"
    by (auto split: if_splits sum.splits)
  obtain xs ys where xy: "flatten (cs0 ! i) = xs @ ys" "flatten c = xs @ flatten new @ ys"
    using 4(1) [OF i c] by blast
  have upd: "cs0[i := c] = take i cs0 @ c # drop (Suc i) cs0"
    using i by (simp add: upd_conv_take_nth_drop)
  have old: "cs0 = take i cs0 @ (cs0 ! i) # drop (Suc i) cs0"
    using i by (simp add: id_take_nth_drop [symmetric])
  let ?xs = "Element t0 a0 [] # flatten_among (take i cs0) @ xs"
  let ?ys = "ys @ flatten_among (drop (Suc i) cs0)"
  have "flatten_among cs0 = flatten_among (take i cs0 @ (cs0 ! i) # drop (Suc i) cs0)"
    by (rule arg_cong [OF old])
  then have "flatten (Element t0 a0 cs0) = ?xs @ ?ys"
    using xy by (simp add: flatten_among_append)
  moreover have "flatten n' = ?xs @ flatten new @ ?ys"
    unfolding n' upd using xy by (simp add: flatten_among_append)
  ultimately show ?case by blast
qed

lemma doc_before_root [simp]: "doc_before [] h \<longleftrightarrow> h \<noteq> []"
  by (cases h) auto

lemma doc_before_Nil [simp]: "\<not> doc_before p []"
  by (cases p) auto

lemma node_at_shift:
  "insert_afterend p b n = Inr n' \<Longrightarrow> doc_before p h \<Longrightarrow>
     node_at n' (shift p h) = node_at n h"
proof (induction p b n arbitrary: n' h rule: insert_afterend.induct)
  case (1 new n)
  then show ?case by simp
next
  case (2 i p new s)
  then show ?case by simp
next
  case (3 i new t0 a0 cs0)
  then have i: "i < length cs0"
    and n': "n' = Element t0 a0 (take (Suc i) cs0 @ new # drop (Suc i) cs0)"
    by (auto split: if_splits)
  obtain j q where h: "h = j # q" using 3(2) by (cases h) auto
  then have "i \<le> j" using 3(2) by auto
  then show ?case unfolding n' h using i
    by (auto simp: nth_append min_def Suc_diff_le simp del: take_Suc drop_Suc)
next
  case (4 i v va new t0 a0 cs0)
  then obtain c where i: "i < length cs0"
    and c: "insert_afterend (v # va) new (cs0 ! i) = Inr c"
    and n': "n' = Element t0 a0 (cs0[i := c])"
    by (auto split: if_splits sum.splits)
  obtain j q where h: "h = j # q" using 4(3) by (cases h) auto
  show ?case
  proof (cases "i = j")
    case True
    then have "doc_before (v # va) q" using 4(3) h by simp
    then have "node_at c (shift (v # va) q) = node_at (cs0 ! i) q"
      using 4(1) [OF i c] by simp
    then show ?thesis unfolding n' h using True i by simp
  next
    case False
    then show ?thesis unfolding n' h using i by simp
  qed
qed

lemma doc_before_next_sibling: "doc_before p h \<Longrightarrow> doc_before p (next_sibling h)"
proof (induction p h rule: doc_before.induct)
  case (4 i p j q)
  then show ?case by (cases q) auto
qed auto

lemma next_sibling_Cons: "q \<noteq> [] \<Longrightarrow> next_sibling (i # q) = i # next_sibling q"
  by (cases q) simp_all

lemma shift_eq_Nil [simp]: "shift p h = [] \<longleftrightarrow> h = []"
  by (induction p h rule: shift.induct) auto

lemma next_sibling_shift:
  "doc_before p h \<Longrightarrow> p \<noteq> [] \<Longrightarrow> next_sibling (shift p h) = shift p (next_sibling h)"
proof (induction p h rule: shift.induct)
  case (3 i j q)
  then show ?case by (cases q) auto
next
  case (4 i v va j q)
  then show ?case by (cases q) (auto simp: next_sibling_Cons)
qed auto

lemma sorted_all_matches:
  "sorted_wrt doc_before (all_matches a n)"
  "sorted_wrt doc_before (all_matches_among a i cs)"
proof (induction a n and a i cs rule: all_matches_all_matches_among.induct)
  case (2 in_article t a cs)
  then show ?case by (auto dest: all_matches_among_index)
next
  case (4 in_article i c cs)
  then show ?case
    by (auto simp: sorted_wrt_append sorted_wrt_map dest: all_matches_among_index)
qed auto

lemma has_article_ancestor_Nil [simp]: "\<not> has_article_ancestor n []"
  by (simp add: has_article_ancestor_def)

lemma has_article_ancestor_Text [simp]: "\<not> has_article_ancestor (Text s) p"
proof
  assume "has_article_ancestor (Text s) p"
  then obtain k a cs where "node_at (Text s) (take k p) = Some (Element ''article'' a cs)"
    by (auto simp: has_article_ancestor_def)
  then show False by (cases "take k p") auto
qed

lemma has_article_ancestor_Cons:
  "has_article_ancestor (Element t at cs) (i # q) \<longleftrightarrow>
     t = ''article'' \<or> (i < length cs \<and> has_article_ancestor (cs ! i) q)"
  by (auto simp: has_article_ancestor_def less_Suc_eq_0_disj split: if_splits)

lemma all_matches_iff:
  "p \<in> set (all_matches a n) \<longleftrightarrow>
     (\<exists>t at cs. node_at n p = Some (Element t at cs) \<and> is_heading t)
     \<and> (a \<or> has_article_ancestor n p)"
proof (induction n arbitrary: a p)
  case (Element t at cs)
  show ?case
  proof (cases p)
    case Nil
    then show ?thesis by (auto dest: all_matches_among_index)
  next
    case (Cons i q)
    have "p \<in> set (all_matches a (Element t at cs)) \<longleftrightarrow>
        i < length cs \<and> q \<in> set (all_matches (a \<or> t = ''article'') (cs ! i))"
      unfolding Cons by (auto simp: all_matches_among_mem)
    also have "\<dots> \<longleftrightarrow> i < length cs \<and>
        (\<exists>t' at' cs'. node_at (cs ! i) q = Some (Element t' at' cs') \<and> is_heading t')
        \<and> ((a \<or> t = ''article'') \<or> has_article_ancestor (cs ! i) q)"
      using Element.IH [of "cs ! i"] by auto
    also have "\<dots> \<longleftrightarrow> (\<exists>t' at' cs'. node_at (Element t at cs) p = Some (Element t' at' cs') \<and> is_heading t')
        \<and> (a \<or> has_article_ancestor (Element t at cs) p)"
      unfolding Cons by (auto simp: has_article_ancestor_Cons)
    finally show ?thesis .
  qed
next
  case (Text s)
  then show ?case by (cases p) auto
qed

section \<open>Facts about the handlers\<close>

lemma avatarDiv_byline: "avatarDiv = byline ''images/labeeb.jpg'' ''By labeeb''"
  by (simp add: avatarDiv_def byline_def avatar_markup_def)

lemma avatarDiv_origin_byline:
  "avatarDiv_origin origin = byline (image_url origin) ''By Labeeb''"
  by (simp add: avatarDiv_origin_def byline_def avatar_markup_origin_def)

lemma handler_inject: "handler H d = inject H avatarDiv d"
  by (simp add: handler_def inject_def createElement_def set_innerHTML_def avatarDiv_def
      split: option.splits)

lemma handler_origin_inject:
  "handler_origin H d = inject H (avatarDiv_origin (location_origin H)) d"
  by (simp add: handler_origin_def inject_def createElement_def set_innerHTML_def
      avatarDiv_origin_def split: option.splits)

lemma heading_free_byline: "heading_free (byline src label)"
  by (simp add: heading_free_def byline_def is_heading_def)

lemma heading_free_all: "heading_free b \<Longrightarrow> all_matches a b = []"
  by (cases a) (simp_all add: heading_free_def)

lemma occurrences_byline_self: "occurrences (byline src label) (byline src label) = 1"
  by (simp add: byline_def)

lemma querySelector_hd: "querySelector d = hd_option (qualifying_headings d)"
  by (simp add: querySelector_def qualifying_headings_def first_match_is_hd)

lemma querySelector_valid:
  assumes "querySelector d = Some p"
  shows "p \<noteq> [] \<and> (\<exists>t at cs. node_at d p = Some (Element t at cs) \<and> is_heading t)"
proof -
  have "p \<in> set (all_matches False d)"
    using assms by (cases "all_matches False d")
      (simp_all add: querySelector_def first_match_is_hd)
  then show ?thesis using all_matches_False_nonroot all_matches_valid by blast
qed

lemma inject_none: "qualifying_headings d = [] \<Longrightarrow> inject H b d = Inr d"
  by (simp add: inject_def querySelector_hd)

lemma inject_unsupported:
  assumes "qualifying_headings d = p # rest"
  shows "\<not> has_createElement H \<Longrightarrow> inject H b d = Inl TypeError"
    and "has_createElement H \<Longrightarrow> xml_document H \<Longrightarrow> inject H b d = Inl SyntaxError"
    and "has_createElement H \<Longrightarrow> \<not> xml_document H \<Longrightarrow> \<not> has_insertAdjacentElement H \<Longrightarrow>
         inject H b d = Inl TypeError"
  using assms by (simp_all add: inject_def querySelector_hd insertAdjacentElement_def)

lemma first_heading_facts:
  assumes "qualifying_headings d = p # rest"
  shows "p \<noteq> []" "\<exists>t at cs. node_at d p = Some (Element t at cs) \<and> is_heading t"
proof -
  have "p \<in> set (all_matches False d)"
    using assms by (simp add: qualifying_headings_def)
  then show "p \<noteq> []" "\<exists>t at cs. node_at d p = Some (Element t at cs) \<and> is_heading t"
    using all_matches_False_nonroot all_matches_valid by blast+
qed

lemma inject_some:
  assumes "qualifying_headings d = p # rest"
    and "has_createElement H" "\<not> xml_document H" "has_insertAdjacentElement H"
  shows "\<exists>d'. inject H b d = Inr d' \<and> insert_afterend p b d = Inr d'"
proof -
  obtain x where "node_at d p = Some x" "p \<noteq> []"
    using first_heading_facts [OF assms(1)] by blast
  then obtain d' where "insert_afterend p b d = Inr d'"
    using insert_afterend_succeeds by blast
  then show ?thesis
    using assms by (simp add: inject_def querySelector_hd insertAdjacentElement_def)
qed

lemma shift_self [simp]: "shift p p = p"
proof (induction p)
  case (Cons i p)
  then show ?case by (cases p) auto
qed simp

lemma shift_next_sibling_self:
  "p \<noteq> [] \<Longrightarrow> shift p (next_sibling p) = next_sibling (next_sibling p)"
proof (induction p)
  case (Cons i p)
  then show ?case by (cases p) (auto simp: next_sibling_Cons)
qed simp

lemma doc_before_next_sibling_self: "p \<noteq> [] \<Longrightarrow> doc_before p (next_sibling p)"
proof (induction p)
  case (Cons i p)
  then show ?case by (cases p) auto
qed simp

lemma doc_before_asym: "doc_before p q \<Longrightarrow> \<not> doc_before q p"
  by (induction p q rule: doc_before.induct) auto

text \<open>What one run does to a document with a qualifying heading.\<close>

lemma inject_effect:
  assumes hs: "qualifying_headings d = p # rest"
    and H: "has_createElement H" "\<not> xml_document H" "has_insertAdjacentElement H"
    and b: "heading_free b"
  shows "\<exists>d'. inject H b d = Inr d'
     \<and> node_at d' p = node_at d p
     \<and> node_at d' (next_sibling p) = Some b
     \<and> remove_at (next_sibling p) d' = d
     \<and> occurrences b d' = occurrences b d + occurrences b b
     \<and> qualifying_headings d' = p # map (shift p) rest
     \<and> (\<exists>xs ys. flatten d = xs @ ys \<and> flatten d' = xs @ flatten b @ ys)
     \<and> (\<forall>h. doc_before p h \<longrightarrow> node_at d' (shift p h) = node_at d h
           \<and> node_at d' (next_sibling (shift p h)) = node_at d (next_sibling h))"
proof -
  obtain d' where run: "inject H b d = Inr d'" and ins: "insert_afterend p b d = Inr d'"
    using inject_some [OF hs H] by blast
  obtain t at cs where hd: "node_at d p = Some (Element t at cs)" "is_heading t" and ne: "p \<noteq> []"
    using first_heading_facts [OF hs] by blast
  have "all_matches True b = []" using b by (simp add: heading_free_def)
  then have occ: "occurrences b d' = occurrences b d + occurrences b b"
    using occurrences_insert_afterend [OF ins hd] by simp
  have "qualifying_headings d' = map (shift p) (qualifying_headings d)"
    unfolding qualifying_headings_def
    using all_matches_insert_afterend [OF ins] heading_free_all [OF b] by simp
  then have qh: "qualifying_headings d' = p # map (shift p) rest"
    using hs by simp
  have later: "node_at d' (shift p h) = node_at d h
      \<and> node_at d' (next_sibling (shift p h)) = node_at d (next_sibling h)"
    if "doc_before p h" for h
    using node_at_shift [OF ins that] node_at_shift [OF ins doc_before_next_sibling [OF that]]
      next_sibling_shift [OF that ne] by simp
  show ?thesis
    using run insert_afterend_node_at [OF ins] remove_at_insert_afterend [OF ins] occ qh
      flatten_insert_afterend [OF ins] later by blast
qed

lemma later_headings_after_first:
  assumes "qualifying_headings d = p # rest" "h \<in> set rest"
  shows "doc_before p h"
  using sorted_all_matches(1) [of False d] assms by (simp add: qualifying_headings_def)

lemma inject_twice:
  assumes hs: "qualifying_headings d = p # rest"
    and H: "has_createElement H" "\<not> xml_document H" "has_insertAdjacentElement H"
    and b: "heading_free b"
  shows "\<exists>d2. twice (inject H b) d = Inr d2
     \<and> occurrences b d2 = occurrences b d + 2 * occurrences b b
     \<and> node_at d2 (next_sibling p) = Some b
     \<and> node_at d2 (next_sibling (next_sibling p)) = Some b"
proof -
  obtain d1 where d1: "inject H b d = Inr d1" "node_at d1 (next_sibling p) = Some b"
      "occurrences b d1 = occurrences b d + occurrences b b"
      "qualifying_headings d1 = p # map (shift p) rest"
    using inject_effect [OF hs H b] by blast
  have ne: "p \<noteq> []" using first_heading_facts(1) [OF hs] .
  obtain d2 where d2: "inject H b d1 = Inr d2" "node_at d2 (next_sibling p) = Some b"
      "occurrences b d2 = occurrences b d1 + occurrences b b"
      "\<forall>h. doc_before p h \<longrightarrow> node_at d2 (shift p h) = node_at d1 h
           \<and> node_at d2 (next_sibling (shift p h)) = node_at d1 (next_sibling h)"
    using inject_effect [OF d1(4) H b] by blast
  have "node_at d2 (shift p (next_sibling p)) = node_at d1 (next_sibling p)"
    using d2(4) doc_before_next_sibling_self [OF ne] by blast
  then have "node_at d2 (next_sibling (next_sibling p)) = Some b"
    using d1(2) shift_next_sibling_self [OF ne] by simp
  moreover have "twice (inject H b) d = Inr d2"
    using d1(1) d2(1) by (simp add: twice_def)
  ultimately show ?thesis using d2(2,3) d1(3) by simp
qed

lemma node_at_append:
  "node_at n (p @ q) = (case node_at n p of None \<Rightarrow> None | Some m \<Rightarrow> node_at m q)"
  by (induction n p rule: node_at.induct) auto

lemma qualifies_iff: "qualifies d p \<longleftrightarrow> p \<in> set (qualifying_headings d)"
  by (simp add: qualifies_def qualifying_headings_def all_matches_iff)

lemma handler_funs:
  "handler H = inject H avatarDiv"
  "handler_origin H = inject H (avatarDiv_origin (location_origin H))"
  by (rule ext, simp add: handler_inject handler_origin_inject)+

lemma heading_free_avatarDiv [simp]:
  "heading_free avatarDiv" "heading_free (avatarDiv_origin origin)"
  by (simp_all add: avatarDiv_byline avatarDiv_origin_byline heading_free_byline)

lemma occurrences_avatarDiv_self [simp]:
  "occurrences avatarDiv avatarDiv = 1"
  "occurrences (avatarDiv_origin origin) (avatarDiv_origin origin) = 1"
  by (simp_all add: avatarDiv_byline avatarDiv_origin_byline occurrences_byline_self)

lemma browser_simps [simp]:
  "has_createElement (browser origin)" "has_insertAdjacentElement (browser origin)"
  "\<not> xml_document (browser origin)" "location_origin (browser origin) = origin"
  by (simp_all add: browser_def)

lemma inject_Inr_supported:
  assumes "qualifying_headings d = p # rest" "inject H b d = Inr d'"
  shows "has_createElement H" "\<not> xml_document H" "has_insertAdjacentElement H"
  using inject_unsupported [OF assms(1), of H b] assms(2) by auto

lemma two_configurations_of_one_behaviour:
  "handler H d = inject H (byline ''images/labeeb.jpg'' ''By labeeb'') d
   \<and> handler_origin H d
       = inject H (byline (image_url (location_origin H)) ''By Labeeb'') d"
  by (simp add: handler_inject handler_origin_inject avatarDiv_byline avatarDiv_origin_byline)

section \<open>Facts about the example pages\<close>

lemma scenario_headings: "qualifying_headings scenario_page = [[0]]"
  by (simp add: qualifying_headings_def scenario_page_def is_heading_def)

lemma scenario_clean: "occurrences avatarDiv scenario_page = 0"
  by (simp add: scenario_page_def avatarDiv_byline byline_def)

lemma scenario_clean_origin: "occurrences (avatarDiv_origin origin) scenario_page = 0"
  by (simp add: scenario_page_def avatarDiv_origin_byline byline_def)

lemma mixed_page_query: "querySelector mixed_page = Some [0]"
  by (simp add: querySelector_def mixed_page_def is_heading_def)

lemma plain_headings: "qualifying_headings plain_page = []"
  by (simp add: qualifying_headings_def plain_page_def is_heading_def)

lemma scenario_run:
  "handler (browser ''https://example.org'') scenario_page
     = Inr (Element ''article'' []
         [Element ''h1'' [] [Text ''Title''], avatarDiv, Element ''p'' [] [Text ''Body'']])"
  by (simp add: handler_def querySelector_def createElement_def set_innerHTML_def insertAdjacentElement_def
      browser_def scenario_page_def is_heading_def avatarDiv_def)

lemma two_headings: "qualifying_headings two_headings_page = [[0, 0, 0], [0, 0, 2]]"
  by (simp add: qualifying_headings_def two_headings_page_def is_heading_def)

section \<open>The claims\<close>

text \<open>
  C1. On a document with exactly one qualifying heading (an \<open>h1\<close> or \<open>h2\<close> inside an
  article), one run of the handler ends without error, leaves the heading where it was,
  puts the byline element (the container with the image and the label \<open>By <name>\<close>)
  at the position of the heading's next sibling, and raises the number of byline elements
  of the document by exactly one: exactly one byline on a page that held none, as a page
  does when the readiness event fires. Both scripts, each with its image path and label.
\<close>

theorem C1_single_heading_gets_one_byline:
  assumes "qualifying_headings d = [p]"
  shows "(\<exists>d'. handler (browser origin) d = Inr d'
            \<and> node_at d' p = node_at d p
            \<and> node_at d' (next_sibling p) = Some (byline ''images/labeeb.jpg'' ''By labeeb'')
            \<and> occurrences (byline ''images/labeeb.jpg'' ''By labeeb'') d'
                = occurrences (byline ''images/labeeb.jpg'' ''By labeeb'') d + 1
            \<and> (occurrences (byline ''images/labeeb.jpg'' ''By labeeb'') d = 0 \<longrightarrow>
                  occurrences (byline ''images/labeeb.jpg'' ''By labeeb'') d' = 1))
       \<and> (\<exists>d'. handler_origin (browser origin) d = Inr d'
            \<and> node_at d' p = node_at d p
            \<and> node_at d' (next_sibling p) = Some (byline (image_url origin) ''By Labeeb'')
            \<and> occurrences (byline (image_url origin) ''By Labeeb'') d'
                = occurrences (byline (image_url origin) ''By Labeeb'') d + 1
            \<and> (occurrences (byline (image_url origin) ''By Labeeb'') d = 0 \<longrightarrow>
                  occurrences (byline (image_url origin) ''By Labeeb'') d' = 1))"
proof
  have "\<exists>d'. handler (browser origin) d = Inr d'
            \<and> node_at d' p = node_at d p
            \<and> node_at d' (next_sibling p) = Some avatarDiv
            \<and> occurrences avatarDiv d' = occurrences avatarDiv d + 1
            \<and> (occurrences avatarDiv d = 0 \<longrightarrow> occurrences avatarDiv d' = 1)"
    using inject_effect [OF assms, of "browser origin" avatarDiv]
    by (auto simp: handler_inject)
  then show "\<exists>d'. handler (browser origin) d = Inr d'
            \<and> node_at d' p = node_at d p
            \<and> node_at d' (next_sibling p) = Some (byline ''images/labeeb.jpg'' ''By labeeb'')
            \<and> occurrences (byline ''images/labeeb.jpg'' ''By labeeb'') d'
                = occurrences (byline ''images/labeeb.jpg'' ''By labeeb'') d + 1
            \<and> (occurrences (byline ''images/labeeb.jpg'' ''By labeeb'') d = 0 \<longrightarrow>
                  occurrences (byline ''images/labeeb.jpg'' ''By labeeb'') d' = 1)"
    unfolding avatarDiv_byline .
  have "\<exists>d'. handler_origin (browser origin) d = Inr d'
            \<and> node_at d' p = node_at d p
            \<and> node_at d' (next_sibling p) = Some (avatarDiv_origin origin)
            \<and> occurrences (avatarDiv_origin origin) d'
                = occurrences (avatarDiv_origin origin) d + 1
            \<and> (occurrences (avatarDiv_origin origin) d = 0 \<longrightarrow>
                  occurrences (avatarDiv_origin origin) d' = 1)"
    using inject_effect [OF assms, of "browser origin" "avatarDiv_origin origin"]
    by (auto simp: handler_origin_inject)
  then show "\<exists>d'. handler_origin (browser origin) d = Inr d'
            \<and> node_at d' p = node_at d p
            \<and> node_at d' (next_sibling p) = Some (byline (image_url origin) ''By Labeeb'')
            \<and> occurrences (byline (image_url origin) ''By Labeeb'') d'
                = occurrences (byline (image_url origin) ''By Labeeb'') d + 1
            \<and> (occurrences (byline (image_url origin) ''By Labeeb'') d = 0 \<longrightarrow>
                  occurrences (byline (image_url origin) ''By Labeeb'') d' = 1)"
    unfolding avatarDiv_origin_byline .
qed

theorem C1_single_heading_gets_one_byline_witness:
  "qualifying_headings scenario_page = [[0]]
   \<and> occurrences (byline ''images/labeeb.jpg'' ''By labeeb'') scenario_page = 0
   \<and> (\<exists>d'. handler (browser ''https://example.org'') scenario_page = Inr d'
        \<and> node_at d' [1] = Some (byline ''images/labeeb.jpg'' ''By labeeb'')
        \<and> occurrences (byline ''images/labeeb.jpg'' ''By labeeb'') d' = 1)
   \<and> occurrences (byline (image_url ''https://example.org'') ''By Labeeb'') scenario_page = 0
   \<and> (\<exists>d'. handler_origin (browser ''https://example.org'') scenario_page = Inr d'
        \<and> node_at d' [1] = Some (byline (image_url ''https://example.org'') ''By Labeeb'')
        \<and> occurrences (byline (image_url ''https://example.org'') ''By Labeeb'') d' = 1)"
  using C1_single_heading_gets_one_byline [OF scenario_headings, of "''https://example.org''"]
    scenario_headings scenario_clean scenario_clean_origin [of "''https://example.org''"]
  unfolding avatarDiv_byline avatarDiv_origin_byline
  by auto

text \<open>
  C2. As stated the claim fails: the selector list is one query, and the element it
  returns is the first one in tree order that matches either selector. What holds: the
  operation selects a path exactly when the element there qualifies (an \<open>h1\<close> or
  \<open>h2\<close> with an article ancestor) and every other qualifying element comes later in
  tree order; the selected element has one of the two levels, and no level is preferred;
  it selects nothing exactly when no element qualifies. In particular, when the first
  qualifying heading in tree order is an \<open>h2\<close>, that \<open>h2\<close> is the one selected,
  also where an \<open>h1\<close> follows it.
\<close>

theorem C2_first_qualifying_in_tree_order:
  "(querySelector d = Some p \<longleftrightarrow>
      qualifies d p \<and> (\<forall>q. qualifies d q \<and> q \<noteq> p \<longrightarrow> doc_before p q))
   \<and> (querySelector d = None \<longleftrightarrow> (\<forall>q. \<not> qualifies d q))
   \<and> (querySelector d = Some p \<longrightarrow>
        (tag_at d p = Some ''h1'' \<or> tag_at d p = Some ''h2'')
        \<and> (\<forall>q. qualifies d q \<longrightarrow> \<not> doc_before q p))
   \<and> (qualifies d p \<and> tag_at d p = Some ''h2''
        \<and> (\<forall>q. qualifies d q \<and> q \<noteq> p \<longrightarrow> doc_before p q) \<longrightarrow>
        querySelector d = Some p)"
proof -
  have sorted: "sorted_wrt doc_before (qualifying_headings d)"
    by (simp add: qualifying_headings_def sorted_all_matches)
  have none: "querySelector d = None \<longleftrightarrow> (\<forall>q. \<not> qualifies d q)"
    by (cases "qualifying_headings d") (auto simp: querySelector_hd qualifies_iff)
  have some: "querySelector d = Some p \<longleftrightarrow>
      qualifies d p \<and> (\<forall>q. qualifies d q \<and> q \<noteq> p \<longrightarrow> doc_before p q)"
  proof (cases "qualifying_headings d")
    case Nil
    then show ?thesis by (simp add: querySelector_hd qualifies_iff)
  next
    case (Cons p0 rest)
    have first: "\<forall>q \<in> set rest. doc_before p0 q" using sorted Cons by simp
    show ?thesis
    proof
      assume "querySelector d = Some p"
      then have "p0 = p" using Cons by (simp add: querySelector_hd)
      then show "qualifies d p \<and> (\<forall>q. qualifies d q \<and> q \<noteq> p \<longrightarrow> doc_before p q)"
        using first Cons by (auto simp: qualifies_iff)
    next
      assume *: "qualifies d p \<and> (\<forall>q. qualifies d q \<and> q \<noteq> p \<longrightarrow> doc_before p q)"
      have "p0 = p"
      proof (rule ccontr)
        assume "p0 \<noteq> p"
        then have "p \<in> set rest" "doc_before p p0"
          using * Cons by (auto simp: qualifies_iff)
        then show False using first doc_before_asym by blast
      qed
      then show "querySelector d = Some p" using Cons by (simp add: querySelector_hd)
    qed
  qed
  have level: "tag_at d p = Some ''h1'' \<or> tag_at d p = Some ''h2''" if "qualifies d p"
    using that by (auto simp: qualifies_def tag_at_def is_heading_def)
  have irrefl: "\<not> doc_before p p"
    using doc_before_asym by blast
  have nothing_before: "\<forall>q. qualifies d q \<longrightarrow> \<not> doc_before q p"
    if "querySelector d = Some p"
  proof (intro allI impI)
    fix q assume q: "qualifies d q"
    show "\<not> doc_before q p"
    proof (cases "q = p")
      case True
      then show ?thesis using irrefl by simp
    next
      case False
      then have "doc_before p q" using that q some by blast
      then show ?thesis using doc_before_asym by blast
    qed
  qed
  show ?thesis using some none level nothing_before by blast
qed

theorem C2_first_qualifying_in_tree_order_witness:
  "querySelector mixed_page = Some [0] \<and> qualifies mixed_page [0]
   \<and> tag_at mixed_page [0] = Some ''h2''"
  using C2_first_qualifying_in_tree_order [of mixed_page "[0]"] mixed_page_query
  by (simp add: tag_at_def mixed_page_def)

theorem C2_counterexample:
  "qualifying_headings mixed_page = [[0], [1]]
   \<and> tag_at mixed_page [0] = Some ''h2'' \<and> tag_at mixed_page [1] = Some ''h1''
   \<and> querySelector mixed_page = Some [0]"
  by (simp add: qualifying_headings_def querySelector_def tag_at_def mixed_page_def
      is_heading_def)

text \<open>
  C3. As stated the claim fails: neither script keeps a flag or looks for a byline that
  is already there, so a second run finds the same heading and inserts again. What holds:
  two runs leave at most one byline only on a document without a qualifying heading, where
  both runs change nothing; on a document with a qualifying heading each run inserts one
  byline directly after the heading, so that two runs raise the number of bylines by two
  and the heading is followed by two bylines. Both scripts.
\<close>

theorem C3_each_run_inserts_a_byline:
  "(qualifying_headings d = [] \<longrightarrow>
      twice (handler (browser origin)) d = Inr d
      \<and> twice (handler_origin (browser origin)) d = Inr d)
   \<and> (\<forall>p rest. qualifying_headings d = p # rest \<longrightarrow>
        (\<exists>d2. twice (handler (browser origin)) d = Inr d2
           \<and> occurrences avatarDiv d2 = occurrences avatarDiv d + 2
           \<and> node_at d2 (next_sibling p) = Some avatarDiv
           \<and> node_at d2 (next_sibling (next_sibling p)) = Some avatarDiv)
      \<and> (\<exists>d2. twice (handler_origin (browser origin)) d = Inr d2
           \<and> occurrences (avatarDiv_origin origin) d2
               = occurrences (avatarDiv_origin origin) d + 2
           \<and> node_at d2 (next_sibling p) = Some (avatarDiv_origin origin)
           \<and> node_at d2 (next_sibling (next_sibling p)) = Some (avatarDiv_origin origin)))"
proof (intro conjI allI impI)
  assume "qualifying_headings d = []"
  then show "twice (handler (browser origin)) d = Inr d"
    "twice (handler_origin (browser origin)) d = Inr d"
    by (simp_all add: twice_def handler_inject handler_origin_inject inject_none)
next
  fix p rest assume hs: "qualifying_headings d = p # rest"
  show "\<exists>d2. twice (handler (browser origin)) d = Inr d2
           \<and> occurrences avatarDiv d2 = occurrences avatarDiv d + 2
           \<and> node_at d2 (next_sibling p) = Some avatarDiv
           \<and> node_at d2 (next_sibling (next_sibling p)) = Some avatarDiv"
    using inject_twice [OF hs, of "browser origin" avatarDiv]
    by (simp add: handler_funs)
  show "\<exists>d2. twice (handler_origin (browser origin)) d = Inr d2
           \<and> occurrences (avatarDiv_origin origin) d2
               = occurrences (avatarDiv_origin origin) d + 2
           \<and> node_at d2 (next_sibling p) = Some (avatarDiv_origin origin)
           \<and> node_at d2 (next_sibling (next_sibling p)) = Some (avatarDiv_origin origin)"
    using inject_twice [OF hs, of "browser origin" "avatarDiv_origin origin"]
    by (simp add: handler_funs)
qed

theorem C3_each_run_inserts_a_byline_witness:
  "qualifying_headings scenario_page = [[0]]
   \<and> (\<exists>d2. twice (handler (browser ''https://example.org'')) scenario_page = Inr d2
        \<and> occurrences avatarDiv d2 = 2
        \<and> node_at d2 [1] = Some avatarDiv \<and> node_at d2 [2] = Some avatarDiv)
   \<and> qualifying_headings plain_page = []
   \<and> twice (handler (browser ''https://example.org'')) plain_page = Inr plain_page"
  using C3_each_run_inserts_a_byline [of scenario_page "''https://example.org''"]
    C3_each_run_inserts_a_byline [of plain_page "''https://example.org''"]
    scenario_headings plain_headings scenario_clean
  by (auto simp: numeral_2_eq_2)

theorem C3_counterexample:
  "twice (handler (browser ''https://example.org'')) scenario_page
     = Inr (Element ''article'' []
         [Element ''h1'' [] [Text ''Title''], avatarDiv, avatarDiv,
          Element ''p'' [] [Text ''Body'']])
   \<and> occurrences avatarDiv (Element ''article'' []
         [Element ''h1'' [] [Text ''Title''], avatarDiv, avatarDiv,
          Element ''p'' [] [Text ''Body'']]) = 2"
  by (simp add: twice_def handler_def querySelector_def createElement_def
      set_innerHTML_def insertAdjacentElement_def browser_def scenario_page_def is_heading_def
      avatarDiv_def avatar_markup_def)

text \<open>
  C4. Both scripts are the one behaviour of the specification under two configurations
  (lemma \<open>two_configurations_of_one_behaviour\<close>: same search, same guard, same insertion
  after the located heading, same container, image and label elements with the same
  attributes), but the label text is not identical: on the page of the specification's
  scenario the relative script inserts a byline whose label reads \<open>By labeeb\<close>, the
  origin-qualified script one whose label reads \<open>By Labeeb\<close>.
\<close>

theorem C4_label_text_differs:
  "handler (browser ''https://example.org'') scenario_page
     = Inr (Element ''article'' []
         [Element ''h1'' [] [Text ''Title''], avatarDiv, Element ''p'' [] [Text ''Body'']])
   \<and> handler_origin (browser ''https://example.org'') scenario_page
     = Inr (Element ''article'' []
         [Element ''h1'' [] [Text ''Title''], avatarDiv_origin ''https://example.org'',
          Element ''p'' [] [Text ''Body'']])
   \<and> node_at avatarDiv [3, 0] = Some (Text ''By labeeb'')
   \<and> node_at (avatarDiv_origin ''https://example.org'') [3, 0] = Some (Text ''By Labeeb'')
   \<and> ''By labeeb'' \<noteq> ''By Labeeb''"
  by (simp add: handler_def handler_origin_def querySelector_def createElement_def
      set_innerHTML_def insertAdjacentElement_def browser_def scenario_page_def is_heading_def
      avatarDiv_def avatar_markup_def avatarDiv_origin_def avatar_markup_origin_def)

text \<open>
  C5. As stated the claim fails for an origin string that ends in a slash, such as
  \<open>file://\<close>: the script concatenates and does not normalise. What holds: for every
  origin string the resolved image path is the origin, the site base path and the image
  sub-path put together; exactly one slash stands where the base path meets the sub-path;
  and exactly one slash stands where the origin meets the base path if and only if the
  origin does not end in a slash.
\<close>

theorem C5_origin_qualified_path:
  "image_url origin = origin @ site_base_path @ image_sub_path
   \<and> junction_slashes (origin @ site_base_path) image_sub_path = 1
   \<and> (junction_slashes origin site_base_path = 1 \<longleftrightarrow> origin = [] \<or> last origin \<noteq> CHR ''/'')"
proof (intro conjI)
  show "image_url origin = origin @ site_base_path @ image_sub_path"
    by (simp add: image_url_def site_base_path_def image_sub_path_def)
  show "junction_slashes (origin @ site_base_path) image_sub_path = 1"
    by (simp add: junction_slashes_def site_base_path_def image_sub_path_def is_slash_def)
  have "junction_slashes origin site_base_path = 1 \<longleftrightarrow> takeWhile is_slash (rev origin) = []"
    by (simp add: junction_slashes_def site_base_path_def is_slash_def)
  also have "\<dots> \<longleftrightarrow> origin = [] \<or> last origin \<noteq> CHR ''/''"
    by (cases origin rule: rev_cases) (simp_all add: is_slash_def)
  finally show "junction_slashes origin site_base_path = 1
      \<longleftrightarrow> origin = [] \<or> last origin \<noteq> CHR ''/''" .
qed

theorem C5_origin_qualified_path_witness:
  "image_url ''https://example.org''
     = ''https://example.org/backend-engineering-notes/images/labeeb.jpg''
   \<and> last ''https://example.org'' \<noteq> CHR ''/''
   \<and> junction_slashes ''https://example.org'' site_base_path = 1"
  using C5_origin_qualified_path [of "''https://example.org''"]
  by (simp add: site_base_path_def image_sub_path_def)

theorem C5_counterexample:
  "image_url ''file://'' = ''file:///backend-engineering-notes/images/labeeb.jpg''
   \<and> junction_slashes ''file://'' site_base_path = 3"
  by (simp add: image_url_def junction_slashes_def site_base_path_def is_slash_def)

text \<open>
  C6. On a document with no qualifying heading the handler returns without error and the
  document it leaves is the document it found: nothing is inserted, so no byline element
  has come to exist. This holds on every host, whether or not it has the DOM methods, as
  none of them is called. Both scripts.
\<close>

theorem C6_no_heading_no_change:
  assumes "qualifying_headings d = []"
  shows "handler H d = Inr d \<and> handler_origin H d = Inr d"
  using assms by (simp add: handler_inject handler_origin_inject inject_none)

theorem C6_no_heading_no_change_witness:
  "qualifying_headings plain_page = []
   \<and> handler legacy_browser plain_page = Inr plain_page
   \<and> handler_origin (browser ''https://example.org'') plain_page = Inr plain_page
   \<and> occurrences avatarDiv plain_page = 0"
  using C6_no_heading_no_change [OF plain_headings, of legacy_browser]
    C6_no_heading_no_change [OF plain_headings, of "browser ''https://example.org''"]
    plain_headings
  by (simp add: plain_page_def avatarDiv_byline byline_def)

text \<open>
  C7. The insertion is purely additive. With no qualifying heading the document is left
  as it is. Otherwise the document afterwards has the byline at the position of the next
  sibling of the located heading, taking that one subtree away gives back the document
  as it was, and the nodes of the old document, listed in tree order, are those of the new
  one in the same order with the nodes of the byline put in at one place. Both scripts.
\<close>

theorem C7_insertion_is_additive:
  "(qualifying_headings d = [] \<longrightarrow>
      handler (browser origin) d = Inr d \<and> handler_origin (browser origin) d = Inr d)
   \<and> (\<forall>p rest. qualifying_headings d = p # rest \<longrightarrow>
        (\<exists>d'. handler (browser origin) d = Inr d'
           \<and> node_at d' (next_sibling p) = Some avatarDiv
           \<and> remove_at (next_sibling p) d' = d
           \<and> (\<exists>xs ys. flatten d = xs @ ys \<and> flatten d' = xs @ flatten avatarDiv @ ys))
      \<and> (\<exists>d'. handler_origin (browser origin) d = Inr d'
           \<and> node_at d' (next_sibling p) = Some (avatarDiv_origin origin)
           \<and> remove_at (next_sibling p) d' = d
           \<and> (\<exists>xs ys. flatten d = xs @ ys
                 \<and> flatten d' = xs @ flatten (avatarDiv_origin origin) @ ys)))"
proof (intro conjI allI impI)
  assume "qualifying_headings d = []"
  then show "handler (browser origin) d = Inr d" "handler_origin (browser origin) d = Inr d"
    by (simp_all add: handler_inject handler_origin_inject inject_none)
next
  fix p rest assume hs: "qualifying_headings d = p # rest"
  show "\<exists>d'. handler (browser origin) d = Inr d'
           \<and> node_at d' (next_sibling p) = Some avatarDiv
           \<and> remove_at (next_sibling p) d' = d
           \<and> (\<exists>xs ys. flatten d = xs @ ys \<and> flatten d' = xs @ flatten avatarDiv @ ys)"
    using inject_effect [OF hs, of "browser origin" avatarDiv]
    by (simp add: handler_inject) blast
  show "\<exists>d'. handler_origin (browser origin) d = Inr d'
           \<and> node_at d' (next_sibling p) = Some (avatarDiv_origin origin)
           \<and> remove_at (next_sibling p) d' = d
           \<and> (\<exists>xs ys. flatten d = xs @ ys
                 \<and> flatten d' = xs @ flatten (avatarDiv_origin origin) @ ys)"
    using inject_effect [OF hs, of "browser origin" "avatarDiv_origin origin"]
    by (simp add: handler_origin_inject) blast
qed

theorem C7_insertion_is_additive_witness:
  "qualifying_headings scenario_page = [[0]]
   \<and> (\<exists>d'. handler (browser ''https://example.org'') scenario_page = Inr d'
        \<and> node_at d' [1] = Some avatarDiv \<and> remove_at [1] d' = scenario_page)
   \<and> qualifying_headings plain_page = []
   \<and> handler (browser ''https://example.org'') plain_page = Inr plain_page"
  using C7_insertion_is_additive [of scenario_page "''https://example.org''"]
    C7_insertion_is_additive [of plain_page "''https://example.org''"]
    scenario_headings plain_headings
  by auto

text \<open>
  C8. In the relative script the image of the inserted byline has the fixed relative path
  as its source, whatever the origin of the page: in the document a run leaves, the second
  child of the element after the located heading is the image, and its \<open>src\<close> attribute
  is the constant.
\<close>

theorem C8_relative_path_unchanged:
  assumes "qualifying_headings d = p # rest" and "handler H d = Inr d'"
  shows "tag_at d' (next_sibling p @ [1]) = Some ''img''
     \<and> attribute_at d' (next_sibling p @ [1]) ''src'' = Some image_sub_path"
proof -
  have run: "inject H avatarDiv d = Inr d'" using assms(2) by (simp add: handler_inject)
  have H: "has_createElement H" "\<not> xml_document H" "has_insertAdjacentElement H"
    using inject_Inr_supported [OF assms(1) run] by simp_all
  have "node_at d' (next_sibling p) = Some avatarDiv"
    using inject_effect [OF assms(1) H heading_free_avatarDiv(1)] run by auto
  then show ?thesis
    by (simp add: tag_at_def attribute_at_def node_at_append avatarDiv_def avatar_markup_def
        image_sub_path_def)
qed

theorem C8_relative_path_unchanged_witness:
  "qualifying_headings scenario_page = [[0]]
   \<and> attribute_at (Element ''article'' []
         [Element ''h1'' [] [Text ''Title''], avatarDiv, Element ''p'' [] [Text ''Body'']])
       [1, 1] ''src'' = Some ''images/labeeb.jpg''"
  using C8_relative_path_unchanged [OF scenario_headings scenario_run] scenario_headings
  by (simp add: image_sub_path_def)

text \<open>
  C9. As stated the claim fails: the handler has no \<open>try\<close>, so an error raised by a DOM
  call it makes during construction or insertion leaves the handler. What holds: on a
  document with a qualifying heading the error of the first failing call comes out of the
  handler as it is: the TypeError of calling \<open>createElement\<close> where it is missing; the
  SyntaxError of the \<open>innerHTML\<close> assignment on an XML document; the TypeError of calling
  \<open>insertAdjacentElement\<close> where it is missing. Both scripts.
\<close>

theorem C9_errors_are_not_contained:
  "qualifying_headings d \<noteq> [] \<longrightarrow>
     (\<not> has_createElement H \<longrightarrow>
        handler H d = Inl TypeError \<and> handler_origin H d = Inl TypeError)
   \<and> (has_createElement H \<and> xml_document H \<longrightarrow>
        handler H d = Inl SyntaxError \<and> handler_origin H d = Inl SyntaxError)
   \<and> (has_createElement H \<and> \<not> xml_document H \<and> \<not> has_insertAdjacentElement H \<longrightarrow>
        handler H d = Inl TypeError \<and> handler_origin H d = Inl TypeError)"
proof
  assume "qualifying_headings d \<noteq> []"
  then obtain p rest where hs: "qualifying_headings d = p # rest"
    by (cases "qualifying_headings d") auto
  show "(\<not> has_createElement H \<longrightarrow>
        handler H d = Inl TypeError \<and> handler_origin H d = Inl TypeError)
   \<and> (has_createElement H \<and> xml_document H \<longrightarrow>
        handler H d = Inl SyntaxError \<and> handler_origin H d = Inl SyntaxError)
   \<and> (has_createElement H \<and> \<not> xml_document H \<and> \<not> has_insertAdjacentElement H \<longrightarrow>
        handler H d = Inl TypeError \<and> handler_origin H d = Inl TypeError)"
    using inject_unsupported [OF hs, of H]
    by (simp add: handler_inject handler_origin_inject)
qed

theorem C9_errors_are_not_contained_witness:
  "qualifying_headings scenario_page \<noteq> []
   \<and> handler bare_host scenario_page = Inl TypeError
   \<and> handler xhtml_browser scenario_page = Inl SyntaxError
   \<and> handler_origin legacy_browser scenario_page = Inl TypeError"
  using C9_errors_are_not_contained [of scenario_page bare_host]
    C9_errors_are_not_contained [of scenario_page xhtml_browser]
    C9_errors_are_not_contained [of scenario_page legacy_browser]
    scenario_headings
  by (simp add: legacy_browser_def xhtml_browser_def bare_host_def)

theorem C9_counterexample:
  "handler legacy_browser scenario_page = Inl TypeError"
  by (simp add: handler_def querySelector_def createElement_def set_innerHTML_def
      insertAdjacentElement_def legacy_browser_def scenario_page_def is_heading_def)

text \<open>
  C10. On a document with two or more qualifying headings one run of the handler inserts
  one byline (the container with the image and the label \<open>By <name>\<close>), as the next
  sibling of the first qualifying heading in tree order: the number of bylines rises by
  exactly one; every later qualifying heading comes after the first in tree order, is found
  again in the new document (one place to the right where it follows the insertion point
  among the same siblings), and the node that follows it there is the node that followed
  it before, so it has received no byline. Both scripts, each with its image path and
  label.
\<close>

theorem C10_only_first_heading_gets_byline:
  assumes "qualifying_headings d = p # q # rest"
  shows "(\<exists>d'. handler (browser origin) d = Inr d'
            \<and> node_at d' (next_sibling p) = Some (byline ''images/labeeb.jpg'' ''By labeeb'')
            \<and> occurrences (byline ''images/labeeb.jpg'' ''By labeeb'') d'
                = occurrences (byline ''images/labeeb.jpg'' ''By labeeb'') d + 1
            \<and> qualifying_headings d' = p # map (shift p) (q # rest)
            \<and> (\<forall>h \<in> set (q # rest). doc_before p h
                  \<and> node_at d' (shift p h) = node_at d h
                  \<and> node_at d' (next_sibling (shift p h)) = node_at d (next_sibling h)))
       \<and> (\<exists>d'. handler_origin (browser origin) d = Inr d'
            \<and> node_at d' (next_sibling p) = Some (byline (image_url origin) ''By Labeeb'')
            \<and> occurrences (byline (image_url origin) ''By Labeeb'') d'
                = occurrences (byline (image_url origin) ''By Labeeb'') d + 1
            \<and> qualifying_headings d' = p # map (shift p) (q # rest)
            \<and> (\<forall>h \<in> set (q # rest). doc_before p h
                  \<and> node_at d' (shift p h) = node_at d h
                  \<and> node_at d' (next_sibling (shift p h)) = node_at d (next_sibling h)))"
proof -
  have later: "\<forall>h \<in> set (q # rest). doc_before p h"
    using later_headings_after_first [OF assms] by blast
  have one: "\<exists>d'. inject (browser origin) (byline src label) d = Inr d'
            \<and> node_at d' (next_sibling p) = Some (byline src label)
            \<and> occurrences (byline src label) d' = occurrences (byline src label) d + 1
            \<and> qualifying_headings d' = p # map (shift p) (q # rest)
            \<and> (\<forall>h \<in> set (q # rest). doc_before p h
                  \<and> node_at d' (shift p h) = node_at d h
                  \<and> node_at d' (next_sibling (shift p h)) = node_at d (next_sibling h))"
    for src label
  proof -
    obtain d' where "inject (browser origin) (byline src label) d = Inr d'"
      "node_at d' (next_sibling p) = Some (byline src label)"
      "occurrences (byline src label) d'
         = occurrences (byline src label) d + occurrences (byline src label) (byline src label)"
      "qualifying_headings d' = p # map (shift p) (q # rest)"
      "\<forall>h. doc_before p h \<longrightarrow> node_at d' (shift p h) = node_at d h
           \<and> node_at d' (next_sibling (shift p h)) = node_at d (next_sibling h)"
      using inject_effect [OF assms _ _ _ heading_free_byline [of src label], of "browser origin"]
      by auto
    then show ?thesis using later by (auto simp: occurrences_byline_self)
  qed
  show ?thesis
    using one [of "''images/labeeb.jpg''" "''By labeeb''"]
      one [of "image_url origin" "''By Labeeb''"]
    by (simp add: handler_inject handler_origin_inject avatarDiv_byline
        avatarDiv_origin_byline)
qed

theorem C10_only_first_heading_gets_byline_witness:
  "qualifying_headings two_headings_page = [[0, 0, 0], [0, 0, 2]]
   \<and> (\<exists>d'. handler (browser ''https://example.org'') two_headings_page = Inr d'
        \<and> node_at d' [0, 0, 1] = Some (byline ''images/labeeb.jpg'' ''By labeeb'')
        \<and> qualifying_headings d' = [[0, 0, 0], [0, 0, 3]]
        \<and> node_at d' [0, 0, 4] = Some (Element ''p'' [] [Text ''Tail'']))"
proof -
  obtain d' where d': "handler (browser ''https://example.org'') two_headings_page = Inr d'"
    "node_at d' (next_sibling [0, 0, 0]) = Some (byline ''images/labeeb.jpg'' ''By labeeb'')"
    "qualifying_headings d' = [0, 0, 0] # map (shift [0, 0, 0]) [[0, 0, 2]]"
    "\<forall>h \<in> set [[0, 0, 2]]. doc_before [0, 0, 0] h
        \<and> node_at d' (shift [0, 0, 0] h) = node_at two_headings_page h
        \<and> node_at d' (next_sibling (shift [0, 0, 0] h))
            = node_at two_headings_page (next_sibling h)"
    using C10_only_first_heading_gets_byline [OF two_headings, of "''https://example.org''"]
    by auto
  have "node_at d' [0, 0, 4] = Some (Element ''p'' [] [Text ''Tail''])"
    using d'(4) by (simp add: two_headings_page_def numeral_eq_Suc)
  then show ?thesis using two_headings d'(1,2,3) by (auto simp: numeral_eq_Suc)
qed

end
